theory Spec2Isabelle
  imports Complex_Main "HOL-Library.AList"
begin

section \<open>The generation orchestrator of \<^verbatim>\<open>generator/main.py\<close>\<close>

text \<open>
  The development embeds the class \<^verbatim>\<open>DataGenerator\<close> and its worker
  \<^verbatim>\<open>_run_generator\<close>. Python dictionaries are association lists (insertion
  ordered, looked up with \<open>map_of\<close>); \<^verbatim>\<open>IntegrationState\<close> objects live in an
  explicit store, because the registry and the worker thread hold the same object.
  Rates are Python floats; they are modelled as real numbers, so the IEEE special
  values (infinities, NaN) and rounding are outside the model.
\<close>

subsection \<open>Python errors and dictionary access\<close>

datatype py_error = KeyError | ZeroDivisionError

text \<open>\<^verbatim>\<open>k in d\<close> and \<^verbatim>\<open>d[k]\<close> on a dictionary; the subscript raises on a missing key.\<close>

definition contains :: "('k \<times> 'v) list \<Rightarrow> 'k \<Rightarrow> bool" where
  "contains d k = (map_of d k \<noteq> None)"

definition getitem :: "('k \<times> 'v) list \<Rightarrow> 'k \<Rightarrow> py_error + 'v" where
  "getitem d k = (case map_of d k of None \<Rightarrow> Inl KeyError | Some v \<Rightarrow> Inr v)"

text \<open>Float division \<^verbatim>\<open>a / b\<close>: raises on a zero divisor.\<close>

definition truediv :: "real \<Rightarrow> real \<Rightarrow> py_error + real" where
  "truediv a b = (if b = 0 then Inl ZeroDivisionError else Inr (a / b))"

subsection \<open>The catalog \<^verbatim>\<open>AVAILABLE_INTEGRATIONS\<close>\<close>

datatype generator_class =
    WindowsSecurityGenerator
  | WindowsSystemGenerator
  | WindowsApplicationGenerator
  | NginxAccessGenerator
  | NginxErrorGenerator
  | CiscoASAGenerator

record dataset_info =
  description :: string
  data_stream :: string
  generator :: generator_class

text \<open>
  An integration's entry. Its \<^verbatim>\<open>"icon"\<close> (an emoji used only by the front end)
  is left out; \<^verbatim>\<open>"datasets"\<close> is the dictionary the orchestrator reads.
\<close>

record integration_info =
  integration_description :: string
  datasets :: "(string \<times> dataset_info) list"

type_synonym catalog = "(string \<times> integration_info) list"

definition AVAILABLE_INTEGRATIONS :: catalog where
  "AVAILABLE_INTEGRATIONS =
    [(''windows'',
       \<lparr>integration_description = ''Windows Event Log data (Security, System, Application)'',
        datasets =
          [(''security'',
             \<lparr>description = ''Security events (logon, process, privilege)'',
              data_stream = ''logs-windows.security-default'',
              generator = WindowsSecurityGenerator\<rparr>),
           (''system'',
             \<lparr>description = ''System events (service, startup, shutdown)'',
              data_stream = ''logs-windows.system-default'',
              generator = WindowsSystemGenerator\<rparr>),
           (''application'',
             \<lparr>description = ''Application events (errors, warnings)'',
              data_stream = ''logs-windows.application-default'',
              generator = WindowsApplicationGenerator\<rparr>)]\<rparr>),
     (''nginx'',
       \<lparr>integration_description = ''NGINX web server logs'',
        datasets =
          [(''access'',
             \<lparr>description = ''HTTP access logs'',
              data_stream = ''logs-nginx.access-default'',
              generator = NginxAccessGenerator\<rparr>),
           (''error'',
             \<lparr>description = ''Error logs'',
              data_stream = ''logs-nginx.error-default'',
              generator = NginxErrorGenerator\<rparr>)]\<rparr>),
     (''cisco_asa'',
       \<lparr>integration_description = ''Cisco ASA firewall logs'',
        datasets =
          [(''log'',
             \<lparr>description = ''ASA syslog events'',
              data_stream = ''logs-cisco_asa.log-default'',
              generator = CiscoASAGenerator\<rparr>)]\<rparr>)]"

subsection \<open>Task state\<close>

text \<open>
  \<^verbatim>\<open>IntegrationState\<close>. The field \<open>thread\<close> holds the identity of the worker
  thread; \<open>stop_event\<close> holds the flag of the \<^verbatim>\<open>threading.Event\<close> (\<open>None\<close>: no
  event object). The worker receives this same event object as its argument and the
  field is never reassigned, so the worker's \<^verbatim>\<open>stop_event.is_set()\<close> reads this flag.
\<close>

record IntegrationState =
  name :: string
  dataset :: string
  enabled :: bool
  events_per_second :: real
  total_events :: int
  running :: bool
  thread :: "nat option"
  stop_event :: "bool option"

text \<open>One entry of \<^verbatim>\<open>pending_events\<close>:
  \<^verbatim>\<open>{"action": {"create": {"_index": data_stream}}, "doc": event}\<close>.
  An event document is represented by its text.\<close>

type_synonym event = string

record bulk_action =
  action_create_index :: string
  doc :: event

text \<open>
  What the environment answers to the worker: the outcome of
  \<^verbatim>\<open>generator.generate()\<close> and of \<^verbatim>\<open>es_client.bulk_index(...)\<close>, each of
  which returns or raises. What is raised is an \<^verbatim>\<open>Exception\<close>: the generators
  raise nothing else, and \<^verbatim>\<open>bulk_index\<close> turns the errors of the transport into
  \<^verbatim>\<open>Exception\<close>. The value \<^verbatim>\<open>bulk_index\<close> returns is not read.
\<close>

datatype generate_outcome = GenerateRaises | GenerateReturns event string

datatype sink_outcome = BulkReturns | BulkRaises

text \<open>The externally visible effects of a worker, in the order they happen.\<close>

datatype effect = BulkIndex "bulk_action list" sink_outcome | Sleep real

text \<open>
  The control points of \<^verbatim>\<open>_run_generator\<close>:
  \<open>Created\<close> before its first statement, \<open>LoopTop\<close> at the test of the
  \<^verbatim>\<open>while\<close>, \<open>Sleeping d\<close> inside \<^verbatim>\<open>time.sleep(d)\<close>, \<open>AfterLoop\<close> at the
  final \<^verbatim>\<open>if pending_events\<close>, \<open>Exiting\<close> before \<^verbatim>\<open>state.running = False\<close>,
  \<open>Finished\<close> after the return, \<open>Died\<close> after an exception nobody caught.
\<close>

datatype pc = Created | LoopTop | Sleeping real | AfterLoop | Exiting | Finished | Died

text \<open>
  The locals of one activation of \<^verbatim>\<open>_run_generator\<close>, with its effect log. The
  generator instance has no field here: its constructor (\<^verbatim>\<open>BaseGenerator.__init__\<close>,
  which no generator class overrides) only sets a counter, and what the instance
  returns is the environment's answer.
\<close>

record frame =
  generator_class_arg :: generator_class
  sleep_interval :: real
  batch_size :: nat
  pending_events :: "bulk_action list"
  pc :: pc
  trace :: "effect list"

type_synonym task = "IntegrationState \<times> frame"

subsection \<open>The worker \<^verbatim>\<open>_run_generator\<close>\<close>

text \<open>\<^verbatim>\<open>1.0 / state.events_per_second if state.events_per_second > 0 else 1.0\<close>\<close>

definition compute_sleep_interval :: "real \<Rightarrow> py_error + real" where
  "compute_sleep_interval eps = (if eps > 0 then truediv 1 eps else Inr 1)"

text \<open>
  The guarded sink call, the same at both places it occurs:
  \<^verbatim>\<open>try: bulk_index(pending_events); state.total_events += len(pending_events)\<close>
  \<^verbatim>\<open>except: pass\<close>.
\<close>

definition try_bulk_index :: "sink_outcome \<Rightarrow> task \<Rightarrow> task" where
  "try_bulk_index out t =
    (case t of (state, fr) \<Rightarrow>
      (case out of
         BulkReturns \<Rightarrow>
           (state\<lparr>total_events := total_events state + int (length (pending_events fr))\<rparr>,
            fr\<lparr>trace := trace fr @ [BulkIndex (pending_events fr) BulkReturns]\<rparr>)
       | BulkRaises \<Rightarrow>
           (state, fr\<lparr>trace := trace fr @ [BulkIndex (pending_events fr) BulkRaises]\<rparr>)))"

text \<open>The body of the \<^verbatim>\<open>try\<close> inside the loop, up to the sleep it ends in.\<close>

definition loop_body :: "generate_outcome \<Rightarrow> sink_outcome \<Rightarrow> task \<Rightarrow> task" where
  "loop_body g out t =
    (case t of (state, fr) \<Rightarrow>
      (case g of
         GenerateRaises \<Rightarrow> (state, fr\<lparr>pc := Sleeping 1\<rparr>)
       | GenerateReturns ev ds \<Rightarrow>
           (let fr1 = fr\<lparr>pending_events :=
                        pending_events fr @ [\<lparr>action_create_index = ds, doc = ev\<rparr>]\<rparr>;
                t2 = (if length (pending_events fr1) \<ge> batch_size fr1
                      then (case try_bulk_index out (state, fr1) of
                              (state', fr') \<Rightarrow> (state', fr'\<lparr>pending_events := []\<rparr>))
                      else (state, fr1))
            in (fst t2, (snd t2)\<lparr>pc := Sleeping (sleep_interval (snd t2))\<rparr>))))"

text \<open>
  One step of the worker thread from its current control point. The environment's
  answers \<open>g\<close> and \<open>out\<close> are read only by the steps that call the generator or
  the sink. The step from \<open>LoopTop\<close> reads the stop flag once and, when it is not
  set, runs the body up to the call of \<^verbatim>\<open>time.sleep\<close>; the flag is not read
  again before the next \<open>LoopTop\<close>. \<^verbatim>\<open>time.sleep(d)\<close> is not given the event: the
  step out of \<open>Sleeping d\<close> is the return of the call after \<open>d\<close> seconds, which
  the worker logs as \<open>Sleep d\<close>, whatever the flag.
\<close>

definition run_generator_step :: "generate_outcome \<Rightarrow> sink_outcome \<Rightarrow> task \<Rightarrow> task" where
  "run_generator_step g out t =
    (case t of (state, fr) \<Rightarrow>
      (case pc fr of
         Created \<Rightarrow>
           (case compute_sleep_interval (events_per_second state) of
              Inl e \<Rightarrow> (state, fr\<lparr>pc := Died\<rparr>)
            | Inr d \<Rightarrow>
                (state, fr\<lparr>sleep_interval := d, batch_size := 10,
                           pending_events := [], pc := LoopTop\<rparr>))
       | LoopTop \<Rightarrow>
           (if stop_event state = Some True then (state, fr\<lparr>pc := AfterLoop\<rparr>)
            else loop_body g out (state, fr))
       | Sleeping d \<Rightarrow> (state, fr\<lparr>pc := LoopTop, trace := trace fr @ [Sleep d]\<rparr>)
       | AfterLoop \<Rightarrow>
           (if pending_events fr \<noteq> []
            then (case try_bulk_index out (state, fr) of
                    (state', fr') \<Rightarrow> (state', fr'\<lparr>pc := Exiting\<rparr>))
            else (state, fr\<lparr>pc := Exiting\<rparr>))
       | Exiting \<Rightarrow> (state\<lparr>running := False\<rparr>, fr\<lparr>pc := Finished\<rparr>)
       | Finished \<Rightarrow> (state, fr)
       | Died \<Rightarrow> (state, fr)))"

text \<open>Several steps of one worker, one pair of environment answers per step.\<close>

fun run_generator_steps :: "(generate_outcome \<times> sink_outcome) list \<Rightarrow> task \<Rightarrow> task" where
  "run_generator_steps [] t = t"
| "run_generator_steps ((g, out) # es) t = run_generator_steps es (run_generator_step g out t)"

subsection \<open>The orchestrator \<^verbatim>\<open>DataGenerator\<close>\<close>

text \<open>
  \<open>integrations\<close> is \<^verbatim>\<open>self.integrations\<close>, holding references into \<open>heap\<close>;
  the worker thread of the object at address \<open>a\<close> is the frame stored with it.
  A reference held by the registry is always allocated (\<open>registry_ok\<close> below), so
  \<open>heap s ! a\<close> is never read out of range in a state the system reaches.
\<close>

record system =
  integrations :: "(string \<times> nat) list"
  heap :: "task list"

definition init :: system where
  "init = \<lparr>integrations = [], heap = []\<rparr>"

definition make_key :: "string \<Rightarrow> string \<Rightarrow> string" where
  "make_key integration_name ds = integration_name @ '':'' @ ds"

text \<open>The frame of a thread that has been started and has not run yet; its locals
  are assigned by its first step.\<close>

definition new_frame :: "generator_class \<Rightarrow> frame" where
  "new_frame gc = \<lparr>generator_class_arg = gc, sleep_interval = 0, batch_size = 0,
                   pending_events = [], pc = Created, trace = []\<rparr>"

text \<open>
  \<^verbatim>\<open>start_integration\<close>, the catalog being its parameter. The state object is
  registered after \<^verbatim>\<open>state.thread = thread\<close>, so it is built here with its thread.
  The methods of the orchestrator are called from one thread (the front end's) and
  read \<open>running\<close> once: each call is one step of the system.
\<close>

definition start_integration ::
  "catalog \<Rightarrow> string \<Rightarrow> string \<Rightarrow> real \<Rightarrow> system \<Rightarrow> py_error + (bool \<times> system)" where
  "start_integration cat integration_name ds eps s =
    (let key = make_key integration_name ds in
     case (if contains (integrations s) key
           then (case getitem (integrations s) key of
                   Inl e \<Rightarrow> Inl e
                 | Inr a \<Rightarrow> Inr (running (fst (heap s ! a))))
           else Inr False) of
       Inl e \<Rightarrow> Inl e
     | Inr already_running \<Rightarrow>
         if already_running then Inr (False, s)
         else if \<not> contains cat integration_name then Inr (False, s)
         else (case getitem cat integration_name of
                 Inl e \<Rightarrow> Inl e
               | Inr integration_info \<Rightarrow>
                   if \<not> contains (datasets integration_info) ds then Inr (False, s)
                   else (case getitem (datasets integration_info) ds of
                           Inl e \<Rightarrow> Inl e
                         | Inr info \<Rightarrow>
                             (let a = length (heap s);
                                  state = \<lparr>name = integration_name, dataset = ds,
                                           enabled = True, events_per_second = eps,
                                           total_events = 0, running = True,
                                           thread = Some a, stop_event = Some False\<rparr>
                              in Inr (True,
                                      s\<lparr>integrations := AList.update key a (integrations s),
                                        heap := heap s @ [(state, new_frame (generator info))]\<rparr>)))))"

text \<open>\<^verbatim>\<open>if state.stop_event: state.stop_event.set()\<close>\<close>

definition set_stop_event :: "task \<Rightarrow> task" where
  "set_stop_event t =
    (case t of (state, fr) \<Rightarrow>
      (case stop_event state of
         None \<Rightarrow> (state, fr)
       | Some flag \<Rightarrow> (state\<lparr>stop_event := Some True\<rparr>, fr)))"

definition stop_integration ::
  "string \<Rightarrow> string \<Rightarrow> system \<Rightarrow> py_error + (bool \<times> system)" where
  "stop_integration integration_name ds s =
    (let key = make_key integration_name ds in
     if \<not> contains (integrations s) key then Inr (False, s)
     else (case getitem (integrations s) key of
             Inl e \<Rightarrow> Inl e
           | Inr a \<Rightarrow>
               (case set_stop_event (heap s ! a) of
                  (state, fr) \<Rightarrow>
                    Inr (True, s\<lparr>heap := (heap s)[a := (state\<lparr>enabled := False\<rparr>, fr)]\<rparr>))))"

text \<open>
  \<^verbatim>\<open>stop_all\<close>: the first loop sets every event. The second loop only waits
  (\<^verbatim>\<open>join(timeout=2)\<close>) and writes nothing; what the workers do meanwhile are their
  own steps.
\<close>

definition stop_all :: "system \<Rightarrow> system" where
  "stop_all s =
    s\<lparr>heap := fold (\<lambda>(key, a) h. h[a := set_stop_event (h ! a)]) (integrations s) (heap s)\<rparr>"

record status_entry =
  status_name :: string
  status_dataset :: string
  status_enabled :: bool
  status_running :: bool
  status_eps :: real
  status_total_events :: int

text \<open>The dictionary \<^verbatim>\<open>get_status\<close> builds for one state object.\<close>

definition status_of :: "IntegrationState \<Rightarrow> status_entry" where
  "status_of state =
    \<lparr>status_name = name state, status_dataset = dataset state,
     status_enabled = enabled state, status_running = running state,
     status_eps = events_per_second state,
     status_total_events = total_events state\<rparr>"

definition get_status :: "system \<Rightarrow> (string \<times> status_entry) list" where
  "get_status s = map (\<lambda>(key, a). (key, status_of (fst (heap s ! a)))) (integrations s)"

subsection \<open>Executions\<close>

text \<open>
  What can happen to the system: a call of one of the orchestrator's methods by its
  caller, or one step of the worker thread at address \<open>a\<close>.
\<close>

datatype action =
    Start string string real
  | Stop string string
  | StopAll
  | GetStatus
  | Run nat generate_outcome sink_outcome

fun step :: "catalog \<Rightarrow> action \<Rightarrow> system \<Rightarrow> system" where
  "step cat (Start integration_name ds eps) s =
     (case start_integration cat integration_name ds eps s of
        Inl e \<Rightarrow> s | Inr (ok, s') \<Rightarrow> s')"
| "step cat (Stop integration_name ds) s =
     (case stop_integration integration_name ds s of
        Inl e \<Rightarrow> s | Inr (ok, s') \<Rightarrow> s')"
| "step cat StopAll s = stop_all s"
| "step cat GetStatus s = s"
| "step cat (Run a g out) s =
     (if a < length (heap s)
      then s\<lparr>heap := (heap s)[a := run_generator_step g out (heap s ! a)]\<rparr>
      else s)"

fun exec :: "catalog \<Rightarrow> action list \<Rightarrow> system \<Rightarrow> system" where
  "exec cat [] s = s"
| "exec cat (act # acts) s = exec cat acts (step cat act s)"

subsection \<open>Notions used in the statements\<close>

text \<open>A worker is live from the start of its thread until \<^verbatim>\<open>_run_generator\<close> returns.\<close>

definition live :: "task \<Rightarrow> bool" where
  "live t = (pc (snd t) \<noteq> Finished)"

definition key_of :: "task \<Rightarrow> string" where
  "key_of t = make_key (name (fst t)) (dataset (fst t))"

text \<open>The first test of \<^verbatim>\<open>start_integration\<close>:
  \<^verbatim>\<open>key in self.integrations and self.integrations[key].running\<close>.\<close>

definition is_running :: "system \<Rightarrow> string \<Rightarrow> bool" where
  "is_running s key =
    (case map_of (integrations s) key of
       None \<Rightarrow> False
     | Some a \<Rightarrow> running (fst (heap s ! a)))"

text \<open>The two catalog tests of \<^verbatim>\<open>start_integration\<close> and the class they select.\<close>

definition catalog_generator :: "catalog \<Rightarrow> string \<Rightarrow> string \<Rightarrow> generator_class option" where
  "catalog_generator cat integration_name ds =
    (case map_of cat integration_name of
       None \<Rightarrow> None
     | Some info \<Rightarrow> map_option generator (map_of (datasets info) ds))"

text \<open>The state object an accepted \<^verbatim>\<open>start_integration\<close> constructs.\<close>

definition new_state :: "string \<Rightarrow> string \<Rightarrow> real \<Rightarrow> nat \<Rightarrow> IntegrationState" where
  "new_state integration_name ds eps a =
    \<lparr>name = integration_name, dataset = ds, enabled = True, events_per_second = eps,
     total_events = 0, running = True, thread = Some a, stop_event = Some False\<rparr>"

text \<open>
  \<open>signalled t t'\<close>: the object \<open>t'\<close> is \<open>t\<close> except for the two fields
  that \<^verbatim>\<open>stop_integration\<close> and \<^verbatim>\<open>stop_all\<close> write.
\<close>

definition signalled :: "task \<Rightarrow> task \<Rightarrow> bool" where
  "signalled t t' =
    (snd t' = snd t \<and>
     fst t' = (fst t)\<lparr>enabled := enabled (fst t'), stop_event := stop_event (fst t')\<rparr>)"

text \<open>
  The invariant of the registry: a registered address is allocated and holds an
  object of that key; a running object is the one registered under its key; an
  object is marked running exactly while its worker is live.
\<close>

definition registry_ok :: "system \<Rightarrow> bool" where
  "registry_ok s =
    ((\<forall>k a. map_of (integrations s) k = Some a \<longrightarrow>
             a < length (heap s) \<and> key_of (heap s ! a) = k) \<and>
     (\<forall>a<length (heap s). running (fst (heap s ! a)) \<longrightarrow>
             map_of (integrations s) (key_of (heap s ! a)) = Some a) \<and>
     (\<forall>a<length (heap s). live (heap s ! a) = running (fst (heap s ! a))))"

text \<open>
  The invariant of a worker: it has not died, its interval is the one computed from
  the rate, and every sleep it is in is positive.
\<close>

definition throttled :: "task \<Rightarrow> bool" where
  "throttled t =
    (pc (snd t) \<noteq> Died \<and>
     (pc (snd t) \<noteq> Created \<longrightarrow>
        sleep_interval (snd t) =
          (if events_per_second (fst t) > 0 then 1 / events_per_second (fst t) else 1)) \<and>
     (\<forall>d. pc (snd t) = Sleeping d \<longrightarrow> d > 0 \<and> (d = sleep_interval (snd t) \<or> d = 1)))"

text \<open>
  A catalog whose integration and dataset names contain no colon, so that the key
  \<^verbatim>\<open>f"{integration_name}:{dataset}"\<close> determines the pair.
\<close>

definition colon_free :: "catalog \<Rightarrow> bool" where
  "colon_free cat =
    (\<forall>(n, info) \<in> set cat.
       CHR '':'' \<notin> set n \<and> (\<forall>(d, x) \<in> set (datasets info). CHR '':'' \<notin> set d))"

text \<open>Every registered key is the key of a pair of the catalog.\<close>

definition keys_known :: "catalog \<Rightarrow> system \<Rightarrow> bool" where
  "keys_known cat s =
    (\<forall>k \<in> fst ` set (integrations s).
       \<exists>n ds. k = make_key n ds \<and> catalog_generator cat n ds \<noteq> None)"

subsection \<open>Concrete runs\<close>

text \<open>
  Runs of the system from its initial state, over the shipped catalog. \<open>tick a\<close>
  is one step of worker \<open>a\<close> in an environment where the generator and the sink
  both return.
\<close>

definition gen_ok :: generate_outcome where
  "gen_ok = GenerateReturns ''{}'' ''logs-nginx.access-default''"

definition item :: bulk_action where
  "item = \<lparr>action_create_index = ''logs-nginx.access-default'', doc = ''{}''\<rparr>"

definition tick :: "nat \<Rightarrow> action" where
  "tick a = Run a gen_ok BulkReturns"

definition one_event :: "nat \<Rightarrow> action list" where
  "one_event a = [tick a, tick a]"

definition nine_pending :: system where
  "nine_pending =
    exec AVAILABLE_INTEGRATIONS
      (Start ''nginx'' ''access'' 1 # tick 0 # concat (replicate 9 (one_event 0))) init"

definition sink_fails :: system where
  "sink_fails = step AVAILABLE_INTEGRATIONS (Run 0 gen_ok BulkRaises) nine_pending"

definition draining_nine :: system where
  "draining_nine =
    exec AVAILABLE_INTEGRATIONS [Stop ''nginx'' ''access'', tick 0] nine_pending"

definition sleeping_slow :: system where
  "sleeping_slow =
    exec AVAILABLE_INTEGRATIONS [Start ''nginx'' ''access'' (1 / 10), tick 0, tick 0] init"

definition cancelled_asleep :: system where
  "cancelled_asleep =
    exec AVAILABLE_INTEGRATIONS [Stop ''nginx'' ''access'', tick 0] sleeping_slow"

definition fast_top :: system where
  "fast_top = exec AVAILABLE_INTEGRATIONS [Start ''nginx'' ''access'' 5, tick 0] init"

definition generator_failed :: system where
  "generator_failed =
    step AVAILABLE_INTEGRATIONS (Run 0 GenerateRaises BulkReturns) fast_top"


definition stop_requested :: system where
  "stop_requested = step AVAILABLE_INTEGRATIONS (Stop ''nginx'' ''access'') sleeping_slow"


definition zero_started :: system where
  "zero_started = exec AVAILABLE_INTEGRATIONS [Start ''nginx'' ''access'' 0] init"

definition nginx_started :: system where
  "nginx_started = exec AVAILABLE_INTEGRATIONS [Start ''nginx'' ''access'' 1] init"

definition stopped_run :: "action list" where
  "stopped_run =
    [Start ''nginx'' ''access'' 1, tick 0, tick 0, Stop ''nginx'' ''access'',
     tick 0, tick 0, tick 0, tick 0]"

definition nginx_stopped :: system where
  "nginx_stopped = exec AVAILABLE_INTEGRATIONS stopped_run init"


definition zero_rate :: system where
  "zero_rate = exec AVAILABLE_INTEGRATIONS [Start ''nginx'' ''access'' 0, tick 0, tick 0] init"

section \<open>Properties of the worker\<close>

lemma events_per_second_step:
  "events_per_second (fst (run_generator_step g out t)) = events_per_second (fst t)"
  by (cases t; cases out; cases g)
     (auto simp: run_generator_step_def loop_body_def try_bulk_index_def Let_def
                 compute_sleep_interval_def truediv_def split: pc.splits)

lemma throttled_step: "throttled t \<Longrightarrow> throttled (run_generator_step g out t)"
  by (cases t; cases out; cases g)
     (auto simp: throttled_def run_generator_step_def loop_body_def try_bulk_index_def Let_def
                 compute_sleep_interval_def truediv_def split: pc.splits)

lemma finished_step: "pc (snd t) = Finished \<Longrightarrow> run_generator_step g out t = t"
  by (cases t) (simp add: run_generator_step_def)

lemma finished_steps: "pc (snd t) = Finished \<Longrightarrow> run_generator_steps es t = t"
  by (induction es t rule: run_generator_steps.induct) (simp_all add: finished_step)

lemma run_step_fields:
  "key_of (run_generator_step g out t) = key_of t \<and>
   (running (fst (run_generator_step g out t)) \<longrightarrow> running (fst t)) \<and>
   (live t = running (fst t) \<longrightarrow>
      live (run_generator_step g out t) = running (fst (run_generator_step g out t)))"
  by (cases t; cases out; cases g)
     (auto simp: key_of_def live_def run_generator_step_def loop_body_def try_bulk_index_def
                 Let_def compute_sleep_interval_def truediv_def split: pc.splits)

section \<open>Properties of the orchestrator\<close>

subsection \<open>The two requests in closed form\<close>

lemma start_integration_eq:
  "start_integration cat n ds eps s =
    Inr (if is_running s (make_key n ds) then (False, s)
         else (case catalog_generator cat n ds of
                 None \<Rightarrow> (False, s)
               | Some gc \<Rightarrow>
                   (True,
                    s\<lparr>integrations :=
                        AList.update (make_key n ds) (length (heap s)) (integrations s),
                      heap := heap s @ [(new_state n ds eps (length (heap s)), new_frame gc)]\<rparr>)))"
  by (auto simp: start_integration_def is_running_def catalog_generator_def new_state_def
                 contains_def getitem_def Let_def split: option.splits)

lemma stop_integration_eq:
  "stop_integration n ds s =
    Inr (case map_of (integrations s) (make_key n ds) of
           None \<Rightarrow> (False, s)
         | Some a \<Rightarrow>
             (True,
              s\<lparr>heap := (heap s)[a := (fst (set_stop_event (heap s ! a))\<lparr>enabled := False\<rparr>,
                                      snd (heap s ! a))]\<rparr>))"
  by (auto simp: stop_integration_def contains_def getitem_def Let_def set_stop_event_def
           split: option.splits prod.splits)

subsection \<open>What a step does to one object\<close>

lemma signalled_refl: "signalled t t"
  by (simp add: signalled_def)

lemma signalled_trans: "signalled t t' \<Longrightarrow> signalled t' t'' \<Longrightarrow> signalled t t''"
  unfolding signalled_def
  by (cases "fst t"; cases "fst t'"; cases "fst t''") auto

lemma signalled_set_stop_event: "signalled t (set_stop_event t)"
  by (cases t) (simp add: signalled_def set_stop_event_def split: option.splits)

lemma signalled_stop: "signalled t (fst (set_stop_event t)\<lparr>enabled := False\<rparr>, snd t)"
  by (cases t) (simp add: signalled_def set_stop_event_def split: option.splits)

lemma signalled_fields:
  "signalled t t' \<Longrightarrow>
     key_of t' = key_of t \<and> running (fst t') = running (fst t) \<and> live t' = live t \<and>
     events_per_second (fst t') = events_per_second (fst t) \<and>
     total_events (fst t') = total_events (fst t)"
  unfolding signalled_def key_of_def live_def
  by (cases "fst t"; cases "fst t'") auto

lemma stop_all_fold:
  "length (fold (\<lambda>(key, a) h. h[a := set_stop_event (h ! a)]) al h) = length h \<and>
   (\<forall>i<length h.
      signalled (h ! i) (fold (\<lambda>(key, a) h. h[a := set_stop_event (h ! a)]) al h ! i))"
proof (induction al arbitrary: h)
  case Nil
  show ?case by (simp add: signalled_refl)
next
  case (Cons p al)
  obtain key a where p: "p = (key, a)" by (cases p)
  let ?h = "h[a := set_stop_event (h ! a)]"
  have first: "signalled (h ! i) (?h ! i)" if "i < length h" for i
    using that by (cases "i = a") (simp_all add: signalled_refl signalled_set_stop_event)
  have rest: "length (fold (\<lambda>(key, a) h. h[a := set_stop_event (h ! a)]) al ?h) = length h"
    and cells: "\<And>i. i < length h \<Longrightarrow>
        signalled (?h ! i) (fold (\<lambda>(key, a) h. h[a := set_stop_event (h ! a)]) al ?h ! i)"
    using Cons.IH [of ?h] by simp_all
  show ?case
    using rest signalled_trans [OF first cells] by (simp add: p)
qed

lemma step_cell:
  assumes "a < length (heap s)"
  shows "a < length (heap (step cat act s)) \<and>
         (signalled (heap s ! a) (heap (step cat act s) ! a) \<or>
          (\<exists>g out. heap (step cat act s) ! a = run_generator_step g out (heap s ! a)))"
proof (cases act)
  case (Start n ds eps)
  with assms show ?thesis
    by (auto simp: start_integration_eq nth_append signalled_refl split: option.splits)
next
  case (Stop n ds)
  show ?thesis
  proof (cases "map_of (integrations s) (make_key n ds)")
    case None
    with Stop assms show ?thesis by (simp add: stop_integration_eq signalled_refl)
  next
    case (Some b)
    with Stop assms show ?thesis
      by (cases "a = b") (simp_all add: stop_integration_eq signalled_refl signalled_stop)
  qed
next
  case StopAll
  with assms show ?thesis by (simp add: stop_all_def stop_all_fold)
next
  case GetStatus
  with assms show ?thesis by (simp add: signalled_refl)
next
  case (Run b g out)
  with assms show ?thesis by (auto simp: nth_list_update signalled_refl)
qed

lemma exec_cell:
  assumes sig: "\<forall>t t'. P t \<and> signalled t t' \<longrightarrow> P t'"
    and run: "\<forall>t g out. P t \<longrightarrow> P (run_generator_step g out t)"
  shows "a < length (heap s) \<Longrightarrow> P (heap s ! a) \<Longrightarrow>
         a < length (heap (exec cat acts s)) \<and> P (heap (exec cat acts s) ! a)"
proof (induction acts arbitrary: s)
  case Nil
  then show ?case by simp
next
  case (Cons act acts)
  have len: "a < length (heap (step cat act s))"
    using step_cell [OF Cons.prems(1)] by simp
  have "signalled (heap s ! a) (heap (step cat act s) ! a) \<or>
        (\<exists>g out. heap (step cat act s) ! a = run_generator_step g out (heap s ! a))"
    using step_cell [OF Cons.prems(1)] by simp
  then have "P (heap (step cat act s) ! a)"
  proof
    assume "signalled (heap s ! a) (heap (step cat act s) ! a)"
    with Cons.prems(2) sig show ?thesis by blast
  next
    assume "\<exists>g out. heap (step cat act s) ! a = run_generator_step g out (heap s ! a)"
    then obtain g out where "heap (step cat act s) ! a = run_generator_step g out (heap s ! a)"
      by blast
    moreover from Cons.prems(2) run have "P (run_generator_step g out (heap s ! a))"
      by blast
    ultimately show ?thesis by simp
  qed
  with len show ?case using Cons.IH [of "step cat act s"] by simp
qed

lemma step_cell_fields:
  assumes "a < length (heap s)"
  shows "key_of (heap (step cat act s) ! a) = key_of (heap s ! a) \<and>
         (running (fst (heap (step cat act s) ! a)) \<longrightarrow> running (fst (heap s ! a))) \<and>
         (live (heap s ! a) = running (fst (heap s ! a)) \<longrightarrow>
            live (heap (step cat act s) ! a) = running (fst (heap (step cat act s) ! a)))"
proof -
  have "signalled (heap s ! a) (heap (step cat act s) ! a) \<or>
        (\<exists>g out. heap (step cat act s) ! a = run_generator_step g out (heap s ! a))"
    using step_cell [OF assms] by simp
  then show ?thesis
  proof
    assume "signalled (heap s ! a) (heap (step cat act s) ! a)"
    from signalled_fields [OF this] show ?thesis by simp
  next
    assume "\<exists>g out. heap (step cat act s) ! a = run_generator_step g out (heap s ! a)"
    then obtain g out where "heap (step cat act s) ! a = run_generator_step g out (heap s ! a)"
      by blast
    with run_step_fields [of g out "heap s ! a"] show ?thesis by simp
  qed
qed

subsection \<open>The registry invariant\<close>

lemma step_other:
  assumes "\<And>n ds eps. act = Start n ds eps \<Longrightarrow>
             is_running s (make_key n ds) \<or> catalog_generator cat n ds = None"
  shows "integrations (step cat act s) = integrations s \<and>
         length (heap (step cat act s)) = length (heap s)"
proof (cases act)
  case (Start n ds eps)
  with assms [OF Start] show ?thesis by (auto simp: start_integration_eq)
next
  case (Stop n ds)
  then show ?thesis by (simp add: stop_integration_eq split: option.splits)
next
  case StopAll
  then show ?thesis by (simp add: stop_all_def stop_all_fold)
next
  case GetStatus
  then show ?thesis by simp
next
  case (Run b g out)
  then show ?thesis by simp
qed

lemma step_accepted:
  assumes "\<not> is_running s (make_key n ds)" and "catalog_generator cat n ds = Some gc"
  shows "step cat (Start n ds eps) s =
          s\<lparr>integrations := AList.update (make_key n ds) (length (heap s)) (integrations s),
            heap := heap s @ [(new_state n ds eps (length (heap s)), new_frame gc)]\<rparr>"
  using assms by (simp add: start_integration_eq)

lemma registry_ok_accepted:
  assumes ok: "registry_ok s"
    and nr: "\<not> is_running s (make_key n ds)"
  shows "registry_ok
          (s\<lparr>integrations := AList.update (make_key n ds) (length (heap s)) (integrations s),
             heap := heap s @ [(new_state n ds eps (length (heap s)), new_frame gc)]\<rparr>)"
    (is "registry_ok ?s'")
proof -
  let ?key = "make_key n ds"
  let ?new = "(new_state n ds eps (length (heap s)), new_frame gc)"
  have reg: "map_of (integrations ?s') = (map_of (integrations s))(?key \<mapsto> length (heap s))"
    by (simp add: update_conv')
  have new_key: "key_of ?new = ?key" by (simp add: key_of_def new_state_def)
  have new_live: "live ?new = running (fst ?new)"
    by (simp add: live_def new_state_def new_frame_def)
  have old: "heap ?s' ! a = heap s ! a" if "a < length (heap s)" for a
    using that by (simp add: nth_append)
  have new: "heap ?s' ! length (heap s) = ?new" by simp
  have i1: "a < length (heap ?s') \<and> key_of (heap ?s' ! a) = k"
    if h: "map_of (integrations ?s') k = Some a" for k a
  proof (cases "k = ?key")
    case True
    with h reg have "a = length (heap s)" by simp
    with True new new_key show ?thesis by simp
  next
    case False
    with h reg have "map_of (integrations s) k = Some a" by simp
    with ok have "a < length (heap s)" and "key_of (heap s ! a) = k"
      by (simp_all add: registry_ok_def)
    with old [of a] show ?thesis by simp
  qed
  have i2: "map_of (integrations ?s') (key_of (heap ?s' ! a)) = Some a"
    if a: "a < length (heap ?s')" and r: "running (fst (heap ?s' ! a))" for a
  proof (cases "a = length (heap s)")
    case True
    with new new_key reg show ?thesis by simp
  next
    case False
    with a have a': "a < length (heap s)" by simp
    with r old [of a] have r': "running (fst (heap s ! a))" by simp
    with ok a' have m: "map_of (integrations s) (key_of (heap s ! a)) = Some a"
      by (simp add: registry_ok_def)
    have "key_of (heap s ! a) \<noteq> ?key"
    proof
      assume "key_of (heap s ! a) = ?key"
      with m r' have "is_running s ?key" by (simp add: is_running_def)
      with nr show False by simp
    qed
    with m reg old [OF a'] show ?thesis by simp
  qed
  have i3: "live (heap ?s' ! a) = running (fst (heap ?s' ! a))"
    if a: "a < length (heap ?s')" for a
  proof (cases "a = length (heap s)")
    case True
    with new new_live show ?thesis by simp
  next
    case False
    with a have a': "a < length (heap s)" by simp
    with ok have "live (heap s ! a) = running (fst (heap s ! a))"
      by (simp add: registry_ok_def)
    with old [OF a'] show ?thesis by simp
  qed
  show ?thesis
    unfolding registry_ok_def using i1 i2 i3 by blast
qed

lemma registry_ok_step:
  assumes ok: "registry_ok s"
  shows "registry_ok (step cat act s)"
proof (cases "\<exists>n ds eps gc. act = Start n ds eps \<and> \<not> is_running s (make_key n ds) \<and>
                 catalog_generator cat n ds = Some gc")
  case True
  then obtain n ds eps gc where act: "act = Start n ds eps"
    and nr: "\<not> is_running s (make_key n ds)" and gc: "catalog_generator cat n ds = Some gc"
    by blast
  show ?thesis
    unfolding act step_accepted [OF nr gc] by (rule registry_ok_accepted [OF ok nr])
next
  case False
  then have other: "\<And>n ds eps. act = Start n ds eps \<Longrightarrow>
             is_running s (make_key n ds) \<or> catalog_generator cat n ds = None"
    by auto
  have same: "integrations (step cat act s) = integrations s"
    and len: "length (heap (step cat act s)) = length (heap s)"
    using step_other [OF other] by simp_all
  show ?thesis
    unfolding registry_ok_def same len
  proof (intro conjI allI impI)
    fix k a assume "map_of (integrations s) k = Some a"
    with ok have a: "a < length (heap s)" and k: "key_of (heap s ! a) = k"
      by (simp_all add: registry_ok_def)
    from a show "a < length (heap s)" .
    from step_cell_fields [OF a, of cat act] k show "key_of (heap (step cat act s) ! a) = k"
      by simp
  next
    fix a assume a: "a < length (heap s)" and r: "running (fst (heap (step cat act s) ! a))"
    from step_cell_fields [OF a, of cat act] r
    have "running (fst (heap s ! a))"
      and "key_of (heap (step cat act s) ! a) = key_of (heap s ! a)"
      by simp_all
    with ok a show "map_of (integrations s) (key_of (heap (step cat act s) ! a)) = Some a"
      by (simp add: registry_ok_def)
  next
    fix a assume a: "a < length (heap s)"
    with ok have "live (heap s ! a) = running (fst (heap s ! a))"
      by (simp add: registry_ok_def)
    with step_cell_fields [OF a, of cat act]
    show "live (heap (step cat act s) ! a) = running (fst (heap (step cat act s) ! a))"
      by simp
  qed
qed

lemma registry_ok_exec: "registry_ok s \<Longrightarrow> registry_ok (exec cat acts s)"
  by (induction acts arbitrary: s) (simp_all add: registry_ok_step)

lemma registry_ok_init: "registry_ok init"
  by (simp add: registry_ok_def init_def)


section \<open>The concrete runs, evaluated\<close>

lemmas run_defs =
  tick_def one_event_def gen_ok_def item_def AVAILABLE_INTEGRATIONS_def init_def
  start_integration_def stop_integration_def contains_def getitem_def make_key_def
  new_frame_def new_state_def set_stop_event_def run_generator_step_def loop_body_def
  try_bulk_index_def compute_sleep_interval_def truediv_def Let_def

lemma nine_pending_eq:
  "nine_pending =
    \<lparr>integrations = [(''nginx:access'', 0)],
     heap = [(new_state ''nginx'' ''access'' 1 0,
              \<lparr>generator_class_arg = NginxAccessGenerator, sleep_interval = 1,
               batch_size = 10, pending_events = replicate 9 item, pc = LoopTop,
               trace = replicate 9 (Sleep 1)\<rparr>)]\<rparr>"
  by (simp add: nine_pending_def run_defs numeral_eq_Suc)

lemma sink_fails_eq:
  "sink_fails =
    \<lparr>integrations = [(''nginx:access'', 0)],
     heap = [(new_state ''nginx'' ''access'' 1 0,
              \<lparr>generator_class_arg = NginxAccessGenerator, sleep_interval = 1,
               batch_size = 10, pending_events = [], pc = Sleeping 1,
               trace = replicate 9 (Sleep 1) @ [BulkIndex (replicate 10 item) BulkRaises]\<rparr>)]\<rparr>"
  by (simp add: sink_fails_def nine_pending_eq run_defs numeral_eq_Suc)

lemma draining_nine_eq:
  "draining_nine =
    \<lparr>integrations = [(''nginx:access'', 0)],
     heap = [((new_state ''nginx'' ''access'' 1 0)\<lparr>enabled := False, stop_event := Some True\<rparr>,
              \<lparr>generator_class_arg = NginxAccessGenerator, sleep_interval = 1,
               batch_size = 10, pending_events = replicate 9 item, pc = AfterLoop,
               trace = replicate 9 (Sleep 1)\<rparr>)]\<rparr>"
  by (simp add: draining_nine_def nine_pending_eq run_defs numeral_eq_Suc)

lemma sleeping_slow_eq:
  "sleeping_slow =
    \<lparr>integrations = [(''nginx:access'', 0)],
     heap = [(new_state ''nginx'' ''access'' (1 / 10) 0,
              \<lparr>generator_class_arg = NginxAccessGenerator, sleep_interval = 10,
               batch_size = 10, pending_events = [item], pc = Sleeping 10, trace = []\<rparr>)]\<rparr>"
  by (simp add: sleeping_slow_def run_defs)

lemma cancelled_asleep_eq:
  "cancelled_asleep =
    \<lparr>integrations = [(''nginx:access'', 0)],
     heap = [((new_state ''nginx'' ''access'' (1 / 10) 0)
                \<lparr>enabled := False, stop_event := Some True\<rparr>,
              \<lparr>generator_class_arg = NginxAccessGenerator, sleep_interval = 10,
               batch_size = 10, pending_events = [item], pc = LoopTop,
               trace = [Sleep 10]\<rparr>)]\<rparr>"
  by (simp add: cancelled_asleep_def sleeping_slow_eq run_defs)

lemma fast_top_eq:
  "fast_top =
    \<lparr>integrations = [(''nginx:access'', 0)],
     heap = [(new_state ''nginx'' ''access'' 5 0,
              \<lparr>generator_class_arg = NginxAccessGenerator, sleep_interval = 1 / 5,
               batch_size = 10, pending_events = [], pc = LoopTop, trace = []\<rparr>)]\<rparr>"
  by (simp add: fast_top_def run_defs)

lemma generator_failed_eq:
  "generator_failed =
    \<lparr>integrations = [(''nginx:access'', 0)],
     heap = [(new_state ''nginx'' ''access'' 5 0,
              \<lparr>generator_class_arg = NginxAccessGenerator, sleep_interval = 1 / 5,
               batch_size = 10, pending_events = [], pc = Sleeping 1, trace = []\<rparr>)]\<rparr>"
  by (simp add: generator_failed_def fast_top_eq run_defs)


lemma stop_requested_eq:
  "stop_requested =
    \<lparr>integrations = [(''nginx:access'', 0)],
     heap = [((new_state ''nginx'' ''access'' (1 / 10) 0)
                \<lparr>enabled := False, stop_event := Some True\<rparr>,
              \<lparr>generator_class_arg = NginxAccessGenerator, sleep_interval = 10,
               batch_size = 10, pending_events = [item], pc = Sleeping 10, trace = []\<rparr>)]\<rparr>"
  by (simp add: stop_requested_def sleeping_slow_eq run_defs)


lemma zero_started_eq:
  "zero_started =
    \<lparr>integrations = [(''nginx:access'', 0)],
     heap = [(new_state ''nginx'' ''access'' 0 0, new_frame NginxAccessGenerator)]\<rparr>"
  by (simp add: zero_started_def run_defs)

lemma nginx_started_eq:
  "nginx_started =
    \<lparr>integrations = [(''nginx:access'', 0)],
     heap = [(new_state ''nginx'' ''access'' 1 0, new_frame NginxAccessGenerator)]\<rparr>"
  by (simp add: nginx_started_def run_defs)

lemma nginx_stopped_eq:
  "nginx_stopped =
    \<lparr>integrations = [(''nginx:access'', 0)],
     heap = [((new_state ''nginx'' ''access'' 1 0)
                \<lparr>enabled := False, total_events := 1, running := False,
                 stop_event := Some True\<rparr>,
              \<lparr>generator_class_arg = NginxAccessGenerator, sleep_interval = 1,
               batch_size = 10, pending_events = [item], pc = Finished,
               trace = [Sleep 1, BulkIndex [item] BulkReturns]\<rparr>)]\<rparr>"
  by (simp add: nginx_stopped_def stopped_run_def run_defs)


lemma zero_rate_eq:
  "zero_rate =
    \<lparr>integrations = [(''nginx:access'', 0)],
     heap = [(new_state ''nginx'' ''access'' 0 0,
              \<lparr>generator_class_arg = NginxAccessGenerator, sleep_interval = 1,
               batch_size = 10, pending_events = [item], pc = Sleeping 1, trace = []\<rparr>)]\<rparr>"
  by (simp add: zero_rate_def run_defs)

section \<open>Further lemmas on executions\<close>

lemma map_of_get_status:
  "map_of (get_status s) k = map_option (\<lambda>a. status_of (fst (heap s ! a))) (map_of (integrations s) k)"
  by (simp add: get_status_def map_of_map)




lemma start_accepted_result:
  assumes "start_integration cat n ds eps s = Inr (True, s1)"
  shows "\<exists>gc. \<not> is_running s (make_key n ds) \<and> catalog_generator cat n ds = Some gc \<and>
           s1 = s\<lparr>integrations := AList.update (make_key n ds) (length (heap s)) (integrations s),
                  heap := heap s @ [(new_state n ds eps (length (heap s)), new_frame gc)]\<rparr>"
  using assms by (auto simp: start_integration_eq split: if_splits option.splits)

lemma throttled_signalled: "throttled t \<Longrightarrow> signalled t t' \<Longrightarrow> throttled t'"
  unfolding throttled_def signalled_def
  by (cases "fst t"; cases "fst t'") auto


lemma finished_frame_frozen:
  assumes len: "a < length (heap s)" and fin: "pc (snd (heap s ! a)) = Finished"
  shows "snd (heap (exec cat acts s) ! a) = snd (heap s ! a)"
proof -
  define P :: "task \<Rightarrow> bool" where "P = (\<lambda>t. snd t = snd (heap s ! a))"
  have sig: "\<forall>t t'. P t \<and> signalled t t' \<longrightarrow> P t'"
  proof (intro allI impI)
    fix t t' :: task
    assume h: "P t \<and> signalled t t'"
    then have "snd t' = snd t" unfolding signalled_def by blast
    with h show "P t'" by (simp add: P_def)
  qed
  have run: "\<forall>t g out. P t \<longrightarrow> P (run_generator_step g out t)"
    using fin by (simp add: P_def finished_step)
  have P0: "P (heap s ! a)" by (simp add: P_def)
  from exec_cell [where P = P and cat = cat and acts = acts, OF sig run len P0]
  show ?thesis by (simp add: P_def)
qed

subsection \<open>Keys and the catalog\<close>

lemma make_key_inject:
  assumes "CHR '':'' \<notin> set n'" and "CHR '':'' \<notin> set ds'"
    and "make_key n ds = make_key n' ds'"
  shows "n = n' \<and> ds = ds'"
proof -
  from assms(3) have eq: "n @ CHR '':'' # ds = n' @ CHR '':'' # ds'"
    by (simp add: make_key_def)
  then obtain us where
    "(n = n' @ us \<and> us @ CHR '':'' # ds = CHR '':'' # ds') \<or>
     (n @ us = n' \<and> CHR '':'' # ds = us @ CHR '':'' # ds')"
    by (auto simp: append_eq_append_conv2)
  then show ?thesis
  proof
    assume h: "n = n' @ us \<and> us @ CHR '':'' # ds = CHR '':'' # ds'"
    show ?thesis
    proof (cases us)
      case Nil
      with h show ?thesis by simp
    next
      case (Cons u us')
      with h have "ds' = us' @ CHR '':'' # ds" by simp
      with assms(2) show ?thesis by simp
    qed
  next
    assume h: "n @ us = n' \<and> CHR '':'' # ds = us @ CHR '':'' # ds'"
    show ?thesis
    proof (cases us)
      case Nil
      with h show ?thesis by simp
    next
      case (Cons u us')
      with h have "u = CHR '':''" by simp
      with Cons h have "n' = n @ CHR '':'' # us'" by simp
      with assms(1) show ?thesis by simp
    qed
  qed
qed

lemma catalog_generator_colon_free:
  assumes "colon_free cat" and "catalog_generator cat n ds = Some gc"
  shows "CHR '':'' \<notin> set n \<and> CHR '':'' \<notin> set ds"
proof -
  from assms(2) obtain info x where i: "map_of cat n = Some info"
    and x: "map_of (datasets info) ds = Some x"
    by (auto simp: catalog_generator_def split: option.splits)
  from i have "(n, info) \<in> set cat" by (rule map_of_SomeD)
  moreover from x have "(ds, x) \<in> set (datasets info)" by (rule map_of_SomeD)
  ultimately show ?thesis using assms(1) unfolding colon_free_def by fast
qed

lemma keys_known_step:
  assumes "keys_known cat s"
  shows "keys_known cat (step cat act s)"
proof (cases "\<exists>n ds eps gc. act = Start n ds eps \<and> \<not> is_running s (make_key n ds) \<and>
                 catalog_generator cat n ds = Some gc")
  case True
  then obtain n ds eps gc where act: "act = Start n ds eps"
    and nr: "\<not> is_running s (make_key n ds)" and gc: "catalog_generator cat n ds = Some gc"
    by blast
  have "fst ` set (integrations (step cat act s)) = dom (map_of (integrations (step cat act s)))"
    by (simp add: dom_map_of_conv_image_fst)
  also have "\<dots> = insert (make_key n ds) (dom (map_of (integrations s)))"
    unfolding act step_accepted [OF nr gc] by (simp add: update_conv')
  finally have "fst ` set (integrations (step cat act s))
                  = insert (make_key n ds) (fst ` set (integrations s))"
    by (simp add: dom_map_of_conv_image_fst)
  with assms gc show ?thesis unfolding keys_known_def by auto
next
  case False
  then have "\<And>n ds eps. act = Start n ds eps \<Longrightarrow>
             is_running s (make_key n ds) \<or> catalog_generator cat n ds = None"
    by auto
  from step_other [OF this] assms show ?thesis by (simp add: keys_known_def)
qed

lemma keys_known_exec: "keys_known cat s \<Longrightarrow> keys_known cat (exec cat acts s)"
  by (induction acts arbitrary: s) (simp_all add: keys_known_step)

lemma keys_known_init: "keys_known cat init"
  by (simp add: keys_known_def init_def)

lemma unknown_pair_not_registered:
  assumes cf: "colon_free cat" and un: "catalog_generator cat n ds = None"
  shows "map_of (integrations (exec cat acts init)) (make_key n ds) = None"
proof (rule ccontr)
  assume "map_of (integrations (exec cat acts init)) (make_key n ds) \<noteq> None"
  then have "make_key n ds \<in> fst ` set (integrations (exec cat acts init))"
    by (simp add: dom_map_of_conv_image_fst [symmetric] domIff)
  with keys_known_exec [OF keys_known_init, of cat acts]
  obtain n' ds' gc where k: "make_key n ds = make_key n' ds'"
    and g: "catalog_generator cat n' ds' = Some gc"
    unfolding keys_known_def by fast
  from catalog_generator_colon_free [OF cf g] k have "n = n' \<and> ds = ds'"
    using make_key_inject by blast
  with g un show False by simp
qed

lemma colon_free_AVAILABLE_INTEGRATIONS: "colon_free AVAILABLE_INTEGRATIONS"
  by (simp add: colon_free_def AVAILABLE_INTEGRATIONS_def)

subsection \<open>Consequences of the registry invariant\<close>

lemma registry_ok_reachable: "registry_ok (exec cat acts init)"
  by (rule registry_ok_exec [OF registry_ok_init])


lemma registry_ok_running:
  "registry_ok s \<Longrightarrow> a < length (heap s) \<Longrightarrow> running (fst (heap s ! a)) \<Longrightarrow>
   map_of (integrations s) (key_of (heap s ! a)) = Some a"
  unfolding registry_ok_def by blast

lemma registry_ok_live:
  "registry_ok s \<Longrightarrow> a < length (heap s) \<Longrightarrow>
   live (heap s ! a) = running (fst (heap s ! a))"
  unfolding registry_ok_def by blast



section \<open>The claims\<close>

subsection \<open>C1: what a flush adds to the counter\<close>

text \<open>
  Claim C1, as the code has it: at every flush, of a full batch inside the loop or of
  the remainder after it, the sink is called once with the whole batch and a failure
  of that call is swallowed; \<open>total_events\<close> advances by the size of the batch when
  the call returns and stays as it was when the call raises. Inside the loop the
  batch is dropped either way and the worker goes on to its sleep.
\<close>

theorem flush_counts_only_delivered_batches:
  "(pc (snd t) = LoopTop \<and> stop_event (fst t) \<noteq> Some True \<and>
    batch_size (snd t) \<le> length (pending_events (snd t)) + 1 \<longrightarrow>
      (let batch = pending_events (snd t) @ [\<lparr>action_create_index = ds, doc = ev\<rparr>];
           t' = run_generator_step (GenerateReturns ev ds) out t
       in trace (snd t') = trace (snd t) @ [BulkIndex batch out]
          \<and> total_events (fst t') =
              total_events (fst t) + (if out = BulkReturns then int (length batch) else 0)
          \<and> pending_events (snd t') = []
          \<and> pc (snd t') = Sleeping (sleep_interval (snd t))))
   \<and> (pc (snd t) = AfterLoop \<and> pending_events (snd t) \<noteq> [] \<longrightarrow>
      (let t' = run_generator_step g out t
       in trace (snd t') = trace (snd t) @ [BulkIndex (pending_events (snd t)) out]
          \<and> total_events (fst t') =
              total_events (fst t) +
              (if out = BulkReturns then int (length (pending_events (snd t))) else 0)
          \<and> pc (snd t') = Exiting))"
  by (cases t; cases out)
     (auto simp: run_generator_step_def loop_body_def try_bulk_index_def Let_def)

text \<open>The theorem at the tenth event of a run (sink returns) and at the drain of
  nine events (sink raises).\<close>

theorem flush_counts_only_delivered_batches_witness:
  "pc (snd (heap nine_pending ! 0)) = LoopTop
   \<and> stop_event (fst (heap nine_pending ! 0)) \<noteq> Some True
   \<and> batch_size (snd (heap nine_pending ! 0))
       \<le> length (pending_events (snd (heap nine_pending ! 0))) + 1
   \<and> total_events (fst (heap nine_pending ! 0)) = 0
   \<and> total_events (fst (run_generator_step (GenerateReturns ''{}'' ''logs-nginx.access-default'')
         BulkReturns (heap nine_pending ! 0))) = 10
   \<and> pc (snd (heap draining_nine ! 0)) = AfterLoop
   \<and> pending_events (snd (heap draining_nine ! 0)) \<noteq> []
   \<and> total_events (fst (run_generator_step gen_ok BulkRaises (heap draining_nine ! 0))) = 0
   \<and> pc (snd (run_generator_step gen_ok BulkRaises (heap draining_nine ! 0))) = Exiting"
  using flush_counts_only_delivered_batches
          [of "heap nine_pending ! 0" "''logs-nginx.access-default''" "''{}''" BulkReturns]
        flush_counts_only_delivered_batches
          [of "heap draining_nine ! 0" _ _ BulkRaises gen_ok]
  by (simp add: nine_pending_eq draining_nine_eq new_state_def Let_def)

text \<open>
  The claim as stated (the counter advances by the batch size also when the sink
  fails) is false: after nine events the tenth fills the batch, the sink raises, the
  ten events are dropped, and the counter is still 0.
\<close>

theorem sink_failure_counter_counterexample:
  "pc (snd (heap nine_pending ! 0)) = LoopTop
   \<and> length (pending_events (snd (heap nine_pending ! 0))) = 9
   \<and> trace (snd (heap sink_fails ! 0)) =
       trace (snd (heap nine_pending ! 0)) @ [BulkIndex (replicate 10 item) BulkRaises]
   \<and> pending_events (snd (heap sink_fails ! 0)) = []
   \<and> total_events (fst (heap sink_fails ! 0)) = total_events (fst (heap nine_pending ! 0))
   \<and> total_events (fst (heap sink_fails ! 0)) \<noteq> total_events (fst (heap nine_pending ! 0)) + 10
   \<and> map_option status_total_events (map_of (get_status sink_fails) ''nginx:access'') = Some 0"
  by (simp add: sink_fails_eq nine_pending_eq new_state_def get_status_def status_of_def)

subsection \<open>C2: cancellation during the sleep\<close>




subsection \<open>C3: a failing generator\<close>

text \<open>
  Claim C3, as the code has it: when the generator call raises in an iteration, the
  worker keeps its state and its batch, calls no sink, does not die, sleeps for one
  second (whatever the rate) and is then back at the top of the loop.
\<close>

theorem generator_failure_sleeps_one_second:
  "pc (snd t) = LoopTop \<and> stop_event (fst t) \<noteq> Some True \<longrightarrow>
     run_generator_step GenerateRaises out t = (fst t, (snd t)\<lparr>pc := Sleeping 1\<rparr>)
     \<and> run_generator_step g' out' (run_generator_step GenerateRaises out t)
         = (fst t, (snd t)\<lparr>pc := LoopTop, trace := trace (snd t) @ [Sleep 1]\<rparr>)"
  by (cases t) (simp add: run_generator_step_def loop_body_def)

text \<open>The theorem at a worker of rate 5 at the top of its loop.\<close>

theorem generator_failure_sleeps_one_second_witness:
  "pc (snd (heap fast_top ! 0)) = LoopTop
   \<and> stop_event (fst (heap fast_top ! 0)) \<noteq> Some True
   \<and> pc (snd (run_generator_step GenerateRaises BulkReturns (heap fast_top ! 0))) = Sleeping 1
   \<and> pc (snd (run_generator_step gen_ok BulkReturns
         (run_generator_step GenerateRaises BulkReturns (heap fast_top ! 0)))) = LoopTop"
proof -
  have h: "pc (snd (heap fast_top ! 0)) = LoopTop
           \<and> stop_event (fst (heap fast_top ! 0)) \<noteq> Some True"
    by (simp add: fast_top_eq new_state_def)
  with generator_failure_sleeps_one_second [of "heap fast_top ! 0" BulkReturns gen_ok BulkReturns]
  have "run_generator_step GenerateRaises BulkReturns (heap fast_top ! 0)
          = (fst (heap fast_top ! 0), (snd (heap fast_top ! 0))\<lparr>pc := Sleeping 1\<rparr>)"
    and "run_generator_step gen_ok BulkReturns
           (run_generator_step GenerateRaises BulkReturns (heap fast_top ! 0))
          = (fst (heap fast_top ! 0),
             (snd (heap fast_top ! 0))\<lparr>pc := LoopTop,
               trace := trace (snd (heap fast_top ! 0)) @ [Sleep 1]\<rparr>)"
    by blast+
  with h show ?thesis by simp
qed

text \<open>
  The claim as stated (the wait is one interval, \<open>1 / rate\<close>) is false: at rate 5
  the interval is \<open>1/5\<close> and the worker sleeps 1 second after the failure.
\<close>

theorem generator_failure_backoff_counterexample:
  "pc (snd (heap fast_top ! 0)) = LoopTop
   \<and> events_per_second (fst (heap fast_top ! 0)) = 5
   \<and> sleep_interval (snd (heap fast_top ! 0)) = 1 / 5
   \<and> pc (snd (heap generator_failed ! 0)) = Sleeping 1
   \<and> pc (snd (heap generator_failed ! 0))
       \<noteq> Sleeping (sleep_interval (snd (heap generator_failed ! 0)))"
  by (simp add: fast_top_eq generator_failed_eq new_state_def)

subsection \<open>C4: one task per key\<close>




subsection \<open>C5: rejected requests\<close>

text \<open>
  Claim C5, as the code has it: a start of a key that is running or of a pair that is
  not in the catalog, and a stop of a key that is not registered, return false and
  leave the whole system, hence the status, exactly as it was; neither request ever
  raises. A rejected start therefore leaves the key with an entry exactly if it had
  one. For a pair that is not in the catalog there is none, in every state the
  system reaches from its initial one (the catalog's names containing no colon, as
  in the shipped catalog).
\<close>

theorem rejected_requests_change_nothing:
  "(is_running s (make_key n ds) \<or> catalog_generator cat n ds = None \<longrightarrow>
      start_integration cat n ds eps s = Inr (False, s))
   \<and> (map_of (integrations s) (make_key n ds) = None \<longrightarrow>
      stop_integration n ds s = Inr (False, s))
   \<and> start_integration cat n ds eps s \<noteq> Inl e
   \<and> stop_integration n ds s \<noteq> Inl e
   \<and> (start_integration cat n ds eps s = Inr (False, s1) \<longrightarrow>
        s1 = s \<and> get_status s1 = get_status s)
   \<and> (stop_integration n ds s = Inr (False, s1) \<longrightarrow> s1 = s)
   \<and> (colon_free cat \<and> s = exec cat acts init \<and> catalog_generator cat n ds = None \<longrightarrow>
        map_of (get_status s) (make_key n ds) = None)"
proof -
  have c1: "is_running s (make_key n ds) \<or> catalog_generator cat n ds = None \<longrightarrow>
      start_integration cat n ds eps s = Inr (False, s)"
    by (auto simp: start_integration_eq)
  have c2: "map_of (integrations s) (make_key n ds) = None \<longrightarrow>
      stop_integration n ds s = Inr (False, s)"
    by (simp add: stop_integration_eq)
  have c3: "start_integration cat n ds eps s \<noteq> Inl e"
    by (simp add: start_integration_eq)
  have c4: "stop_integration n ds s \<noteq> Inl e"
    by (simp add: stop_integration_eq)
  have c5: "start_integration cat n ds eps s = Inr (False, s1) \<longrightarrow>
        s1 = s \<and> get_status s1 = get_status s"
    by (auto simp: start_integration_eq split: if_splits option.splits)
  have c6: "stop_integration n ds s = Inr (False, s1) \<longrightarrow> s1 = s"
  proof (cases "map_of (integrations s) (make_key n ds)")
    case None
    then show ?thesis by (auto simp: stop_integration_eq)
  next
    case (Some b)
    then show ?thesis by (simp add: stop_integration_eq)
  qed
  have c7: "colon_free cat \<and> s = exec cat acts init \<and> catalog_generator cat n ds = None \<longrightarrow>
        map_of (get_status s) (make_key n ds) = None"
    using unknown_pair_not_registered [of cat n ds acts] by (simp add: map_of_get_status)
  show ?thesis by (intro conjI) (fact c1 c2 c3 c4 c5 c6 c7)+
qed

text \<open>The theorem after one accepted start: a duplicate start, a start of an unknown
  pair and a stop of a key never started.\<close>

theorem rejected_requests_change_nothing_witness:
  "is_running nginx_started (make_key ''nginx'' ''access'')
   \<and> start_integration AVAILABLE_INTEGRATIONS ''nginx'' ''access'' 3 nginx_started
        = Inr (False, nginx_started)
   \<and> catalog_generator AVAILABLE_INTEGRATIONS ''unknown_source'' ''x'' = None
   \<and> start_integration AVAILABLE_INTEGRATIONS ''unknown_source'' ''x'' 1 nginx_started
        = Inr (False, nginx_started)
   \<and> colon_free AVAILABLE_INTEGRATIONS
   \<and> nginx_started = exec AVAILABLE_INTEGRATIONS [Start ''nginx'' ''access'' 1] init
   \<and> map_of (get_status nginx_started) (make_key ''unknown_source'' ''x'') = None
   \<and> map_of (integrations nginx_started) (make_key ''nginx'' ''error'') = None
   \<and> stop_integration ''nginx'' ''error'' nginx_started = Inr (False, nginx_started)"
proof -
  have h1: "is_running nginx_started (make_key ''nginx'' ''access'')"
    by (simp add: is_running_def nginx_started_eq make_key_def new_state_def)
  with rejected_requests_change_nothing
         [of nginx_started "''nginx''" "''access''" AVAILABLE_INTEGRATIONS 3]
  have c1: "start_integration AVAILABLE_INTEGRATIONS ''nginx'' ''access'' 3 nginx_started
              = Inr (False, nginx_started)"
    by blast
  have h2: "catalog_generator AVAILABLE_INTEGRATIONS ''unknown_source'' ''x'' = None"
    by (simp add: catalog_generator_def AVAILABLE_INTEGRATIONS_def)
  have h3: "colon_free AVAILABLE_INTEGRATIONS"
    by (rule colon_free_AVAILABLE_INTEGRATIONS)
  have h4: "nginx_started = exec AVAILABLE_INTEGRATIONS [Start ''nginx'' ''access'' 1] init"
    by (simp only: nginx_started_def)
  from h2 h3 h4 rejected_requests_change_nothing
         [of nginx_started "''unknown_source''" "''x''" AVAILABLE_INTEGRATIONS 1 _ _
             "[Start ''nginx'' ''access'' 1]"]
  have c2: "start_integration AVAILABLE_INTEGRATIONS ''unknown_source'' ''x'' 1 nginx_started
              = Inr (False, nginx_started)
            \<and> map_of (get_status nginx_started) (make_key ''unknown_source'' ''x'') = None"
    by blast
  have h5: "map_of (integrations nginx_started) (make_key ''nginx'' ''error'') = None"
    by (simp add: nginx_started_eq make_key_def)
  with rejected_requests_change_nothing
         [of nginx_started "''nginx''" "''error''" AVAILABLE_INTEGRATIONS]
  have c3: "stop_integration ''nginx'' ''error'' nginx_started = Inr (False, nginx_started)"
    by blast
  from h1 c1 h2 c2 h3 h4 h5 c3 show ?thesis by blast
qed

text \<open>
  The claim as stated (after a rejected start the status has no entry for the key) is
  false for the rejected start of a running key: the entry of the running task is
  there.
\<close>

theorem rejected_duplicate_start_counterexample:
  "start_integration AVAILABLE_INTEGRATIONS ''nginx'' ''access'' 1 nginx_started
     = Inr (False, nginx_started)
   \<and> map_of (get_status nginx_started) (make_key ''nginx'' ''access'') \<noteq> None
   \<and> make_key ''nginx'' ''access'' \<in> fst ` set (get_status nginx_started)"
  by (simp add: nginx_started_eq run_defs get_status_def)

subsection \<open>C6: the drain\<close>

text \<open>
  Claim C6: once its stop flag is set, a worker that is asleep or about to start comes
  to the top of the loop with the flag still set; from there it leaves the loop,
  calls the sink exactly once if the remaining batch is non-empty and not at all if
  it is empty (the counter advancing only when that call returns), and only in the
  step after that sets \<open>running\<close> to false; then it has finished, and whatever
  further steps it is given change nothing. In the system, the frame of a finished
  worker, with its log of sink calls, never changes again, and while the object
  registered under a key is not running, every worker of that key has finished: no
  sink call is made for the key until it is started again.
\<close>

theorem cancelled_task_drains_once_then_stops:
  "(stop_event (fst t) = Some True \<longrightarrow>
     (pc (snd t) = Created \<or> pc (snd t) = Sleeping d \<longrightarrow>
        pc (snd (run_generator_step g0 out0 t)) = LoopTop
        \<and> stop_event (fst (run_generator_step g0 out0 t)) = Some True)
     \<and> (pc (snd t) = LoopTop \<longrightarrow>
         (let t1 = run_generator_step g1 out1 t;
              t2 = run_generator_step g2 out2 t1;
              t3 = run_generator_step g3 out3 t2
          in t1 = (fst t, (snd t)\<lparr>pc := AfterLoop\<rparr>)
             \<and> pc (snd t2) = Exiting
             \<and> running (fst t2) = running (fst t)
             \<and> trace (snd t2) =
                 trace (snd t) @ (if pending_events (snd t) = [] then []
                                  else [BulkIndex (pending_events (snd t)) out2])
             \<and> total_events (fst t2) =
                 total_events (fst t) +
                 (if pending_events (snd t) \<noteq> [] \<and> out2 = BulkReturns
                  then int (length (pending_events (snd t))) else 0)
             \<and> pc (snd t3) = Finished
             \<and> running (fst t3) = False
             \<and> trace (snd t3) = trace (snd t2)
             \<and> total_events (fst t3) = total_events (fst t2)
             \<and> run_generator_steps es t3 = t3)))
   \<and> (a < length (heap s) \<and> pc (snd (heap s ! a)) = Finished \<longrightarrow>
        snd (heap (exec cat acts s) ! a) = snd (heap s ! a))
   \<and> (s = exec cat acts0 init \<and> map_of (integrations s) key = Some a \<and>
       \<not> running (fst (heap s ! a)) \<and> c < length (heap s) \<and> key_of (heap s ! c) = key \<longrightarrow>
        pc (snd (heap s ! c)) = Finished)"
proof -
  obtain state fr where t: "t = (state, fr)" by (cases t)
  have A: "stop_event state = Some True \<Longrightarrow> pc fr = Created \<or> pc fr = Sleeping d \<Longrightarrow>
        pc (snd (run_generator_step g0 out0 (state, fr))) = LoopTop
        \<and> stop_event (fst (run_generator_step g0 out0 (state, fr))) = Some True"
    by (auto simp: run_generator_step_def compute_sleep_interval_def truediv_def)
  have B: "stop_event state = Some True \<Longrightarrow> pc fr = LoopTop \<Longrightarrow>
         (let t1 = run_generator_step g1 out1 (state, fr);
              t2 = run_generator_step g2 out2 t1;
              t3 = run_generator_step g3 out3 t2
          in t1 = (state, fr\<lparr>pc := AfterLoop\<rparr>)
             \<and> pc (snd t2) = Exiting
             \<and> running (fst t2) = running state
             \<and> trace (snd t2) =
                 trace fr @ (if pending_events fr = [] then []
                             else [BulkIndex (pending_events fr) out2])
             \<and> total_events (fst t2) =
                 total_events state +
                 (if pending_events fr \<noteq> [] \<and> out2 = BulkReturns
                  then int (length (pending_events fr)) else 0)
             \<and> pc (snd t3) = Finished
             \<and> running (fst t3) = False
             \<and> trace (snd t3) = trace (snd t2)
             \<and> total_events (fst t3) = total_events (fst t2)
             \<and> run_generator_steps es t3 = t3)"
    by (cases out2)
       (auto simp: run_generator_step_def try_bulk_index_def Let_def finished_steps)
  have C: "a < length (heap s) \<and> pc (snd (heap s ! a)) = Finished \<longrightarrow>
        snd (heap (exec cat acts s) ! a) = snd (heap s ! a)"
    using finished_frame_frozen [of a s cat acts] by blast
  have D: "s = exec cat acts0 init \<and> map_of (integrations s) key = Some a \<and>
       \<not> running (fst (heap s ! a)) \<and> c < length (heap s) \<and> key_of (heap s ! c) = key \<longrightarrow>
        pc (snd (heap s ! c)) = Finished"
  proof (intro impI)
    assume h: "s = exec cat acts0 init \<and> map_of (integrations s) key = Some a \<and>
       \<not> running (fst (heap s ! a)) \<and> c < length (heap s) \<and> key_of (heap s ! c) = key"
    then have "s = exec cat acts0 init" by blast
    then have ok: "registry_ok s" by (simp only: registry_ok_reachable)
    from h have c: "c < length (heap s)" by blast
    show "pc (snd (heap s ! c)) = Finished"
    proof (rule ccontr)
      assume "pc (snd (heap s ! c)) \<noteq> Finished"
      then have "live (heap s ! c)" by (simp add: live_def)
      then have rc: "running (fst (heap s ! c))"
        unfolding registry_ok_live [OF ok c] .
      from h have k: "key_of (heap s ! c) = key" and m: "map_of (integrations s) key = Some a"
        and nr: "\<not> running (fst (heap s ! a))"
        by blast+
      from registry_ok_running [OF ok c rc] have "map_of (integrations s) key = Some c"
        unfolding k .
      with m have "c = a" by simp
      with rc nr show False by simp
    qed
  qed
  show ?thesis unfolding t fst_conv snd_conv using A B C D by blast
qed

text \<open>The theorem at the worker of rate \<open>1/10\<close>, stopped while asleep with one
  event pending, the sink failing at the drain.\<close>

theorem cancelled_task_drains_once_then_stops_witness:
  "stop_event (fst (heap stop_requested ! 0)) = Some True
   \<and> pc (snd (heap stop_requested ! 0)) = Sleeping 10
   \<and> pc (snd (run_generator_step gen_ok BulkReturns (heap stop_requested ! 0))) = LoopTop
   \<and> stop_event (fst (heap cancelled_asleep ! 0)) = Some True
   \<and> pc (snd (heap cancelled_asleep ! 0)) = LoopTop
   \<and> pending_events (snd (heap cancelled_asleep ! 0)) = [item]
   \<and> trace (snd (heap cancelled_asleep ! 0)) = [Sleep 10]
   \<and> running (fst (heap cancelled_asleep ! 0)) = True
   \<and> trace (snd (run_generator_step gen_ok BulkRaises
        (run_generator_step gen_ok BulkReturns (heap cancelled_asleep ! 0))))
       = [Sleep 10, BulkIndex [item] BulkRaises]
   \<and> running (fst (run_generator_step gen_ok BulkRaises
        (run_generator_step gen_ok BulkReturns (heap cancelled_asleep ! 0)))) = True
   \<and> pc (snd (run_generator_step gen_ok BulkReturns (run_generator_step gen_ok BulkRaises
        (run_generator_step gen_ok BulkReturns (heap cancelled_asleep ! 0))))) = Finished
   \<and> running (fst (run_generator_step gen_ok BulkReturns (run_generator_step gen_ok BulkRaises
        (run_generator_step gen_ok BulkReturns (heap cancelled_asleep ! 0))))) = False
   \<and> trace (snd (run_generator_step gen_ok BulkReturns (run_generator_step gen_ok BulkRaises
        (run_generator_step gen_ok BulkReturns (heap cancelled_asleep ! 0)))))
       = [Sleep 10, BulkIndex [item] BulkRaises]
   \<and> nginx_stopped = exec AVAILABLE_INTEGRATIONS stopped_run init
   \<and> map_of (integrations nginx_stopped) ''nginx:access'' = Some 0
   \<and> \<not> running (fst (heap nginx_stopped ! 0))
   \<and> 0 < length (heap nginx_stopped)
   \<and> key_of (heap nginx_stopped ! 0) = ''nginx:access''
   \<and> pc (snd (heap nginx_stopped ! 0)) = Finished
   \<and> snd (heap (exec AVAILABLE_INTEGRATIONS [tick 0, StopAll, tick 0] nginx_stopped) ! 0)
       = snd (heap nginx_stopped ! 0)"
proof -
  have h3: "nginx_stopped = exec AVAILABLE_INTEGRATIONS stopped_run init"
    by (simp only: nginx_stopped_def)
  have h4: "map_of (integrations nginx_stopped) ''nginx:access'' = Some 0
     \<and> \<not> running (fst (heap nginx_stopped ! 0))
     \<and> 0 < length (heap nginx_stopped)
     \<and> key_of (heap nginx_stopped ! 0) = ''nginx:access''"
    by (simp add: nginx_stopped_eq new_state_def key_of_def make_key_def)
  from h3 h4 cancelled_task_drains_once_then_stops
         [where s = nginx_stopped and cat = AVAILABLE_INTEGRATIONS and ?acts0.0 = stopped_run
            and key = "''nginx:access''" and a = 0 and c = 0]
  have c3: "pc (snd (heap nginx_stopped ! 0)) = Finished"
    by blast
  from h4 c3 cancelled_task_drains_once_then_stops
         [where s = nginx_stopped and cat = AVAILABLE_INTEGRATIONS and a = 0
            and acts = "[tick 0, StopAll, tick 0]"]
  have c4: "snd (heap (exec AVAILABLE_INTEGRATIONS [tick 0, StopAll, tick 0] nginx_stopped) ! 0)
       = snd (heap nginx_stopped ! 0)"
    by blast
  have h1: "stop_event (fst (heap stop_requested ! 0)) = Some True
            \<and> pc (snd (heap stop_requested ! 0)) = Sleeping 10"
    by (simp add: stop_requested_eq)
  with cancelled_task_drains_once_then_stops
         [of "heap stop_requested ! 0" 10 gen_ok BulkReturns]
  have c1: "pc (snd (run_generator_step gen_ok BulkReturns (heap stop_requested ! 0))) = LoopTop"
    by blast
  have h2: "stop_event (fst (heap cancelled_asleep ! 0)) = Some True
            \<and> pc (snd (heap cancelled_asleep ! 0)) = LoopTop
            \<and> pending_events (snd (heap cancelled_asleep ! 0)) = [item]
            \<and> trace (snd (heap cancelled_asleep ! 0)) = [Sleep 10]
            \<and> running (fst (heap cancelled_asleep ! 0)) = True"
    by (simp add: cancelled_asleep_eq new_state_def)
  let ?t = "heap cancelled_asleep ! 0"
  let ?t2 = "run_generator_step gen_ok BulkRaises (run_generator_step gen_ok BulkReturns ?t)"
  let ?t3 = "run_generator_step gen_ok BulkReturns ?t2"
  from h2 cancelled_task_drains_once_then_stops
         [of ?t 0 gen_ok BulkReturns gen_ok BulkReturns gen_ok BulkRaises gen_ok BulkReturns
             "[]", unfolded Let_def]
  have raw: "running (fst ?t2) = running (fst ?t)
     \<and> trace (snd ?t2) =
         trace (snd ?t) @ (if pending_events (snd ?t) = [] then []
                           else [BulkIndex (pending_events (snd ?t)) BulkRaises])
     \<and> pc (snd ?t3) = Finished
     \<and> running (fst ?t3) = False
     \<and> trace (snd ?t3) = trace (snd ?t2)"
    by blast
  with h2 have c2: "trace (snd ?t2) = [Sleep 10, BulkIndex [item] BulkRaises]
     \<and> running (fst ?t2) = True
     \<and> pc (snd ?t3) = Finished
     \<and> running (fst ?t3) = False
     \<and> trace (snd ?t3) = [Sleep 10, BulkIndex [item] BulkRaises]"
    by simp
  from h1 c1 h2 c2 h3 h4 c3 c4 show ?thesis by blast
qed

subsection \<open>C7: restarting a stopped key\<close>

text \<open>
  Claim C7: starting a key of the catalog whose registered task is no longer running
  returns true and registers, under that key, a newly allocated object with
  \<open>total_events = 0\<close> and a worker that has not yet begun; the old object stays as
  it was, with its counters, but is no longer the registered one. The status then
  reports 0 events and running for the key.
\<close>

theorem restart_constructs_fresh_task:
  "map_of (integrations s) (make_key n ds) = Some a \<and> a < length (heap s) \<and>
   \<not> running (fst (heap s ! a)) \<and> catalog_generator cat n ds = Some gc \<longrightarrow>
     (\<exists>s1. start_integration cat n ds eps s = Inr (True, s1)
        \<and> map_of (integrations s1) (make_key n ds) = Some (length (heap s))
        \<and> length (heap s) \<noteq> a
        \<and> heap s1 = heap s @ [(new_state n ds eps (length (heap s)), new_frame gc)]
        \<and> total_events (fst (heap s1 ! length (heap s))) = 0
        \<and> pc (snd (heap s1 ! length (heap s))) = Created
        \<and> heap s1 ! a = heap s ! a
        \<and> map_option status_total_events (map_of (get_status s1) (make_key n ds)) = Some 0
        \<and> map_option status_running (map_of (get_status s1) (make_key n ds)) = Some True)"
  by (auto simp: start_integration_eq is_running_def map_of_get_status update_conv'
                 nth_append new_state_def new_frame_def status_of_def)

text \<open>The theorem at a run in which the key was stopped with one event delivered.\<close>

theorem restart_constructs_fresh_task_witness:
  "map_of (integrations nginx_stopped) (make_key ''nginx'' ''access'') = Some 0
   \<and> 0 < length (heap nginx_stopped)
   \<and> \<not> running (fst (heap nginx_stopped ! 0))
   \<and> total_events (fst (heap nginx_stopped ! 0)) = 1
   \<and> catalog_generator AVAILABLE_INTEGRATIONS ''nginx'' ''access'' = Some NginxAccessGenerator
   \<and> (\<exists>s1. start_integration AVAILABLE_INTEGRATIONS ''nginx'' ''access'' 2 nginx_stopped
               = Inr (True, s1)
          \<and> map_option status_total_events (map_of (get_status s1) (make_key ''nginx'' ''access''))
              = Some 0
          \<and> heap s1 ! 0 = heap nginx_stopped ! 0)"
proof -
  have h: "map_of (integrations nginx_stopped) (make_key ''nginx'' ''access'') = Some 0
     \<and> 0 < length (heap nginx_stopped)
     \<and> \<not> running (fst (heap nginx_stopped ! 0))
     \<and> catalog_generator AVAILABLE_INTEGRATIONS ''nginx'' ''access'' = Some NginxAccessGenerator"
    by (simp add: nginx_stopped_eq make_key_def new_state_def catalog_generator_def
                  AVAILABLE_INTEGRATIONS_def)
  have t: "total_events (fst (heap nginx_stopped ! 0)) = 1"
    by (simp add: nginx_stopped_eq)
  from h restart_constructs_fresh_task
         [of nginx_stopped "''nginx''" "''access''" 0 AVAILABLE_INTEGRATIONS
             NginxAccessGenerator 2]
  have "\<exists>s1. start_integration AVAILABLE_INTEGRATIONS ''nginx'' ''access'' 2 nginx_stopped
               = Inr (True, s1)
          \<and> map_option status_total_events (map_of (get_status s1) (make_key ''nginx'' ''access''))
              = Some 0
          \<and> heap s1 ! 0 = heap nginx_stopped ! 0"
    by blast
  with h t show ?thesis by blast
qed

subsection \<open>C8: the sleep interval\<close>




subsection \<open>C9: the registry never shrinks\<close>




subsection \<open>C10: the reported rate\<close>

text \<open>
  Claim C10: after an accepted start with rate \<open>eps\<close>, the status reports \<open>eps\<close>
  for the key; no step of the system ever changes the \<open>events_per_second\<close> of the
  object that start created, so the status reports \<open>eps\<close> for as long as that
  object is the one registered under the key. When \<open>eps \<le> 0\<close> the worker's
  interval is 1 second, which is not \<open>1 / eps\<close>: the reported rate is not the
  effective one.
\<close>

theorem reported_rate_is_the_start_argument:
  "start_integration cat n ds eps s = Inr (True, s1) \<longrightarrow>
     map_option status_eps (map_of (get_status s1) (make_key n ds)) = Some eps
     \<and> map_of (integrations s1) (make_key n ds) = Some (length (heap s))
     \<and> length (heap s) < length (heap (exec cat acts s1))
     \<and> events_per_second (fst (heap (exec cat acts s1) ! length (heap s))) = eps
     \<and> (map_of (integrations (exec cat acts s1)) (make_key n ds) = Some (length (heap s)) \<longrightarrow>
          map_option status_eps (map_of (get_status (exec cat acts s1)) (make_key n ds))
            = Some eps)
     \<and> (eps \<le> 0 \<and> pc (snd (heap (exec cat acts s1) ! length (heap s))) \<noteq> Created \<longrightarrow>
          sleep_interval (snd (heap (exec cat acts s1) ! length (heap s))) = 1
          \<and> eps \<noteq> 1 / sleep_interval (snd (heap (exec cat acts s1) ! length (heap s))))"
proof
  assume "start_integration cat n ds eps s = Inr (True, s1)"
  from start_accepted_result [OF this] obtain gc where
    s1: "s1 = s\<lparr>integrations := AList.update (make_key n ds) (length (heap s)) (integrations s),
                heap := heap s @ [(new_state n ds eps (length (heap s)), new_frame gc)]\<rparr>"
    by blast
  define P :: "task \<Rightarrow> bool"
    where "P = (\<lambda>t. throttled t \<and> events_per_second (fst t) = eps)"
  have len: "length (heap s) < length (heap s1)" by (simp add: s1)
  have P0: "P (heap s1 ! length (heap s))"
    by (simp add: P_def s1 throttled_def new_state_def new_frame_def)
  have sig: "\<forall>t t'. P t \<and> signalled t t' \<longrightarrow> P t'"
  proof (intro allI impI)
    fix t t' :: task
    assume h: "P t \<and> signalled t t'"
    then have s: "signalled t t'" by blast
    from h throttled_signalled [OF _ s] signalled_fields [OF s]
    show "P t'" by (simp add: P_def)
  qed
  have run: "\<forall>t g out. P t \<longrightarrow> P (run_generator_step g out t)"
    by (simp add: P_def throttled_step events_per_second_step)
  let ?a = "length (heap s)"
  let ?s2 = "exec cat acts s1"
  from exec_cell [where P = P and cat = cat and acts = acts, OF sig run len P0]
  have a: "?a < length (heap ?s2)" and thr: "throttled (heap ?s2 ! ?a)"
    and e: "events_per_second (fst (heap ?s2 ! ?a)) = eps"
    by (simp_all add: P_def)
  have r1: "map_of (integrations s1) (make_key n ds) = Some ?a"
    by (simp add: s1 update_conv')
  have e1: "events_per_second (fst (heap s1 ! ?a)) = eps"
    by (simp add: s1 new_state_def)
  have c1: "map_option status_eps (map_of (get_status s1) (make_key n ds)) = Some eps"
    using r1 e1 by (simp add: map_of_get_status status_of_def)
  have c5: "map_of (integrations ?s2) (make_key n ds) = Some ?a \<longrightarrow>
          map_option status_eps (map_of (get_status ?s2) (make_key n ds)) = Some eps"
    using e by (simp add: map_of_get_status status_of_def)
  have c6: "eps \<le> 0 \<and> pc (snd (heap ?s2 ! ?a)) \<noteq> Created \<longrightarrow>
          sleep_interval (snd (heap ?s2 ! ?a)) = 1
          \<and> eps \<noteq> 1 / sleep_interval (snd (heap ?s2 ! ?a))"
    using thr e by (auto simp: throttled_def)
  show "map_option status_eps (map_of (get_status s1) (make_key n ds)) = Some eps
     \<and> map_of (integrations s1) (make_key n ds) = Some ?a
     \<and> ?a < length (heap ?s2)
     \<and> events_per_second (fst (heap ?s2 ! ?a)) = eps
     \<and> (map_of (integrations ?s2) (make_key n ds) = Some ?a \<longrightarrow>
          map_option status_eps (map_of (get_status ?s2) (make_key n ds)) = Some eps)
     \<and> (eps \<le> 0 \<and> pc (snd (heap ?s2 ! ?a)) \<noteq> Created \<longrightarrow>
          sleep_interval (snd (heap ?s2 ! ?a)) = 1
          \<and> eps \<noteq> 1 / sleep_interval (snd (heap ?s2 ! ?a)))"
    by (intro conjI) (fact c1 r1 a e c5 c6)+
qed

text \<open>The theorem at a start with rate 0, followed by the first event.\<close>

theorem reported_rate_is_the_start_argument_witness:
  "start_integration AVAILABLE_INTEGRATIONS ''nginx'' ''access'' 0 init = Inr (True, zero_started)
   \<and> exec AVAILABLE_INTEGRATIONS [tick 0, tick 0] zero_started = zero_rate
   \<and> map_of (integrations zero_rate) (make_key ''nginx'' ''access'') = Some 0
   \<and> (0::real) \<le> 0
   \<and> pc (snd (heap zero_rate ! 0)) \<noteq> Created
   \<and> map_option status_eps (map_of (get_status zero_rate) (make_key ''nginx'' ''access''))
        = Some 0
   \<and> sleep_interval (snd (heap zero_rate ! 0)) = 1"
proof -
  have st: "start_integration AVAILABLE_INTEGRATIONS ''nginx'' ''access'' 0 init
              = Inr (True, zero_started)"
    by (simp add: zero_started_eq run_defs)
  have ex: "exec AVAILABLE_INTEGRATIONS [tick 0, tick 0] zero_started = zero_rate"
    by (simp add: zero_rate_def zero_started_def)
  have h: "map_of (integrations zero_rate) (make_key ''nginx'' ''access'') = Some 0
           \<and> (0::real) \<le> 0 \<and> pc (snd (heap zero_rate ! 0)) \<noteq> Created"
    by (simp add: zero_rate_eq make_key_def)
  have l: "length (heap init) = 0" by (simp add: init_def)
  from st h reported_rate_is_the_start_argument
         [of AVAILABLE_INTEGRATIONS "''nginx''" "''access''" 0 init zero_started
             "[tick 0, tick 0]"]
  have "map_option status_eps (map_of (get_status zero_rate) (make_key ''nginx'' ''access''))
          = Some 0
        \<and> sleep_interval (snd (heap zero_rate ! 0)) = 1"
    unfolding ex l by blast
  with st ex h show ?thesis by blast
qed

end
